theory Spec2Isabelle
  imports
    Main
    "HOL-Library.Char_ord"
    "HOL-Library.List_Lexorder"
    "HOL-Library.Product_Lexorder"
begin

section \<open>CAS model: breadth-first search with visited-state deduplication\<close>

text \<open>
  \<^verbatim>\<open>check_cas\<close> of \<^verbatim>\<open>formal/model_checker.py\<close>. Digests and contents are the
  source's strings. A dict is the list of its items in insertion order (keys distinct);
  \<^verbatim>\<open>d in store\<close> and \<^verbatim>\<open>store[d]\<close> are \<open>map_of\<close>. A frozenset of pairs is a list of
  its elements; Python leaves the iteration order of a set open, so the model reads such a
  list only through \<open>set\<close>, except to fix the order in which violation messages of one
  state are appended.
\<close>

definition DIGESTS :: "string list" where
  "DIGESTS = [''d1'', ''d2'']"

definition CONTENT :: "string list" where
  "CONTENT = [''c_a'', ''c_b'']"

record cas_state =
  store :: "(string \<times> string) list"
  writes_ok :: "(string \<times> string) list"
  errors :: "(string \<times> string) list"

definition cas_init :: cas_state where
  "cas_init = \<lparr>store = [], writes_ok = [], errors = []\<rparr>"

text \<open>
  \<^verbatim>\<open>state_key\<close>: the sorted tuple of the store's items with the two frozensets, which
  compare as sets.
\<close>

type_synonym cas_key =
  "(string \<times> string) list \<times> (string \<times> string) set \<times> (string \<times> string) set"

definition state_key :: "cas_state \<Rightarrow> cas_key" where
  "state_key s = (sort (store s), set (writes_ok s), set (errors s))"

text \<open>The messages of the three invariant loops, by identifier and printed values.\<close>

datatype cas_violation =
    CAS_INV_1 string string string
  | CAS_INV_2 string string
  | CAS_INV_4 string string

definition cas_inv_1 :: "cas_state \<Rightarrow> cas_violation list" where
  "cas_inv_1 s =
     concat (map (\<lambda>(d, c).
       case map_of (store s) d of
         Some c' \<Rightarrow> if c' \<noteq> c then [CAS_INV_1 d c' c] else []
       | None \<Rightarrow> []) (writes_ok s))"

definition cas_inv_2 :: "cas_state \<Rightarrow> cas_violation list" where
  "cas_inv_2 s =
     concat (map (\<lambda>(d, c).
       if (d, c) \<notin> set (errors s) then
         (case map_of (store s) d of
            None \<Rightarrow> [CAS_INV_2 d c]
          | Some c' \<Rightarrow> if c' \<noteq> c then [CAS_INV_2 d c] else [])
       else []) (writes_ok s))"

definition cas_inv_4 :: "cas_state \<Rightarrow> cas_violation list" where
  "cas_inv_4 s =
     concat (map (\<lambda>(d, c).
       case map_of (store s) d of
         None \<Rightarrow> [CAS_INV_4 d c]
       | Some c' \<Rightarrow> if c' = c then [CAS_INV_4 d c] else []) (errors s))"

definition cas_invariants :: "cas_state \<Rightarrow> cas_violation list" where
  "cas_invariants s = cas_inv_1 s @ cas_inv_2 s @ cas_inv_4 s"

text \<open>
  The write action \<^verbatim>\<open>write(d, c)\<close>: the body of the successor loop, for one pair
  \<^verbatim>\<open>(d, c)\<close>. A digest already in the store keeps its content: the same content is an
  idempotent write, another content is a collision recorded in \<^verbatim>\<open>errors\<close>.
\<close>

definition cas_write :: "cas_state \<Rightarrow> string \<Rightarrow> string \<Rightarrow> cas_state" where
  "cas_write s d c =
     (case map_of (store s) d of
        Some c' \<Rightarrow>
          if c' = c then s\<lparr>writes_ok := List.insert (d, c) (writes_ok s)\<rparr>
          else s\<lparr>errors := List.insert (d, c) (errors s)\<rparr>
      | None \<Rightarrow>
          s\<lparr>store := store s @ [(d, c)], writes_ok := List.insert (d, c) (writes_ok s)\<rparr>)"

text \<open>The successors of a state: one per pair not yet in \<^verbatim>\<open>writes_ok\<close>.\<close>

definition successors :: "cas_state \<Rightarrow> cas_state list" where
  "successors s =
     concat (map (\<lambda>d.
       concat (map (\<lambda>c. if (d, c) \<notin> set (writes_ok s) then [cas_write s d c] else [])
         CONTENT)) DIGESTS)"

definition cas_step :: "cas_state \<Rightarrow> cas_state \<Rightarrow> bool" where
  "cas_step s s' = (s' \<in> set (successors s))"

text \<open>
  The variables of the search loop. \<open>c_trace\<close> is a ghost log: the states whose
  invariants were evaluated, in order, appended where the source increments
  \<^verbatim>\<open>explored\<close>.
\<close>

record bfs_state =
  c_queue :: "(cas_state \<times> int) list"
  c_visited :: "cas_key set"
  c_violations :: "cas_violation list"
  c_explored :: nat
  c_trace :: "cas_state list"

definition bfs_start :: "(cas_state \<times> int) list \<Rightarrow> bfs_state" where
  "bfs_start q =
     \<lparr>c_queue = q, c_visited = {}, c_violations = [], c_explored = 0, c_trace = []\<rparr>"

text \<open>
  One iteration of \<^verbatim>\<open>while queue and not violations\<close>. The loop guard makes the queue
  non-empty when the body runs; the first case is never taken.
\<close>

definition bfs_step :: "int \<Rightarrow> bfs_state \<Rightarrow> bfs_state" where
  "bfs_step bound st =
     (case c_queue st of
        [] \<Rightarrow> st
      | (s, depth) # rest \<Rightarrow>
          if state_key s \<in> c_visited st then st\<lparr>c_queue := rest\<rparr>
          else
            (let st1 = st\<lparr>c_queue := rest,
                           c_visited := insert (state_key s) (c_visited st),
                           c_explored := c_explored st + 1,
                           c_violations := c_violations st @ cas_invariants s,
                           c_trace := c_trace st @ [s]\<rparr>
             in if c_violations st1 \<noteq> [] \<or> depth \<ge> bound then st1
                else st1\<lparr>c_queue := rest @ map (\<lambda>s'. (s', depth + 1)) (successors s)\<rparr>))"

definition bfs_weight :: "int \<Rightarrow> bfs_state \<Rightarrow> nat" where
  "bfs_weight bound st =
     (if c_violations st \<noteq> [] then 0
      else sum_list (map (\<lambda>(s, depth). 5 ^ nat (bound - depth)) (c_queue st)))"

function bfs :: "int \<Rightarrow> bfs_state \<Rightarrow> bfs_state" where
  "bfs bound st =
     (if c_queue st \<noteq> [] \<and> c_violations st = [] then bfs bound (bfs_step bound st) else st)"
  by pat_completeness auto
termination
proof (relation "measure (\<lambda>(bound, st). bfs_weight bound st)")
  show "wf (measure (\<lambda>(bound, st). bfs_weight bound st))"
    by simp
next
  fix bound :: int and st :: bfs_state
  assume run: "c_queue st \<noteq> [] \<and> c_violations st = []"
  then obtain s depth rest where q: "c_queue st = (s, depth) # rest"
    by (cases "c_queue st") auto
  have len: "length (successors s) \<le> 4"
    by (simp add: successors_def DIGESTS_def CONTENT_def)
  have pos: "0 < (5::nat) ^ nat (bound - depth)"
    by simp
  have grow: "depth < bound \<Longrightarrow>
      sum_list (map (\<lambda>(s, depth). 5 ^ nat (bound - depth))
        (map (\<lambda>s'. (s', depth + 1)) (successors s))) < (5::nat) ^ nat (bound - depth)"
  proof -
    assume lt: "depth < bound"
    define k where "k = nat (bound - (depth + 1))"
    have k: "nat (bound - depth) = Suc k" "nat (bound - (depth + 1)) = k"
      using lt by (simp_all add: k_def)
    have "sum_list (map (\<lambda>(s, depth). 5 ^ nat (bound - depth))
        (map (\<lambda>s'. (s', depth + 1)) (successors s))) = length (successors s) * 5 ^ k"
      by (simp add: comp_def k sum_list_triv)
    also have "\<dots> \<le> 4 * 5 ^ k"
      using len by simp
    also have "\<dots> < (5::nat) ^ Suc k"
      by simp
    finally show ?thesis
      by (simp add: k)
  qed
  show "((bound, bfs_step bound st), (bound, st)) \<in> measure (\<lambda>(bound, st). bfs_weight bound st)"
  proof (cases "state_key s \<in> c_visited st")
    case True
    then show ?thesis
      using run q pos by (simp add: bfs_step_def bfs_weight_def)
  next
    case new: False
    show ?thesis
    proof (cases "cas_invariants s \<noteq> []")
      case True
      then show ?thesis
        using run q pos new by (simp add: bfs_step_def bfs_weight_def Let_def)
    next
      case ok: False
      show ?thesis
      proof (cases "depth < bound")
        case True
        then show ?thesis
          using run q new ok grow by (simp add: bfs_step_def bfs_weight_def Let_def)
      next
        case False
        then show ?thesis
          using run q pos new ok by (simp add: bfs_step_def bfs_weight_def Let_def)
      qed
    qed
  qed
qed

declare bfs.simps [simp del]

text \<open>
  \<^verbatim>\<open>check_cas(bound, verbose)\<close>: the search from the empty store at depth 0, and the
  value returned.
\<close>

definition cas_run :: "int \<Rightarrow> bfs_state" where
  "cas_run bound = bfs bound (bfs_start [(cas_init, 0)])"

definition check_cas :: "int \<Rightarrow> bool" where
  "check_cas bound = (c_violations (cas_run bound) = [])"

section \<open>Protocol model: bounded depth-first enumeration\<close>

text \<open>
  \<^verbatim>\<open>check_protocol\<close> of \<^verbatim>\<open>formal/model_checker.py\<close>. A violation message is an
  f-string of the source; here it is a constructor carrying the invariant's identifier
  and the values the message prints.
\<close>

datatype proto_violation =
    PROTO_INV_1 string
  | PROTO_INV_2 "string option"
  | PROTO_INV_4

definition TERMINAL :: "string set" where
  "TERMINAL = {''result'', ''error''}"

text \<open>
  \<^verbatim>\<open>check_state(stream, terminated)\<close>: the first failing test decides the message,
  \<^verbatim>\<open>None\<close> when all pass. The \<^verbatim>\<open>enumerate\<close> loop returns at the first pair
  \<^verbatim>\<open>(i, f)\<close> with \<^verbatim>\<open>f == "event" and i == 0\<close>.
\<close>

definition check_state :: "string list \<Rightarrow> bool \<Rightarrow> proto_violation option" where
  "check_state stream terminated =
     (case stream of
        f0 # _ \<Rightarrow>
          if f0 \<noteq> ''start'' then Some (PROTO_INV_1 f0)
          else if terminated \<and> last stream \<notin> TERMINAL
            then Some (PROTO_INV_2 (Some (last stream)))
          else (case find (\<lambda>(i, f). f = ''event'' \<and> i = (0::nat)) (enumerate 0 stream) of
                  Some _ \<Rightarrow> Some PROTO_INV_4
                | None \<Rightarrow> None)
      | [] \<Rightarrow>
          if terminated then Some (PROTO_INV_2 None) else None)"

text \<open>
  The two variables \<^verbatim>\<open>explore\<close> writes, \<^verbatim>\<open>violations\<close> and the \<^verbatim>\<open>nonlocal\<close>
  counter \<^verbatim>\<open>explored\<close>, are threaded through the calls as a record. The field
  \<open>p_visited\<close> is a ghost log: the arguments \<^verbatim>\<open>(stream, terminated)\<close> of every call,
  appended where the source increments \<^verbatim>\<open>explored\<close>.
\<close>

record proto_run =
  p_violations :: "proto_violation list"
  p_explored :: nat
  p_visited :: "(string list \<times> bool) list"

definition proto_init :: proto_run where
  "proto_init = \<lparr>p_violations = [], p_explored = 0, p_visited = []\<rparr>"

definition enter :: "proto_run \<Rightarrow> string list \<Rightarrow> bool \<Rightarrow> proto_run" where
  "enter st stream terminated =
     st\<lparr>p_explored := p_explored st + 1,
        p_visited := p_visited st @ [(stream, terminated)]\<rparr>"

function explore :: "int \<Rightarrow> proto_run \<Rightarrow> string list \<Rightarrow> bool \<Rightarrow> int \<Rightarrow> proto_run" where
  "explore bound st stream terminated depth =
     (let st1 = enter st stream terminated in
      case check_state stream terminated of
        Some err \<Rightarrow> st1\<lparr>p_violations := p_violations st1 @ [err]\<rparr>
      | None \<Rightarrow>
          if terminated \<or> depth \<ge> bound then st1
          else if stream = [] then explore bound st1 [''start''] False (depth + 1)
          else if hd stream = ''start'' then
            (if \<not> terminated then
               (let st2 = explore bound st1 (stream @ [''event'']) False (depth + 1);
                    st3 = (if ''end'' \<notin> set stream
                           then explore bound st2 (stream @ [''end'']) False (depth + 1)
                           else st2);
                    st4 = explore bound st3 (stream @ [''result'']) True (depth + 1)
                in explore bound st4 (stream @ [''error'']) True (depth + 1))
             else st1)
          else st1)"
  by pat_completeness auto
termination
  by (relation "measure (\<lambda>(bound, st, stream, terminated, depth). nat (bound - depth))") auto

declare explore.simps [simp del]

text \<open>
  \<^verbatim>\<open>check_protocol(bound, verbose)\<close>: the value returned, \<^verbatim>\<open>False\<close> when
  \<^verbatim>\<open>violations\<close> is not empty.
\<close>

definition protocol_run :: "int \<Rightarrow> proto_run" where
  "protocol_run bound = explore bound proto_init [] False 0"

definition check_protocol :: "int \<Rightarrow> bool" where
  "check_protocol bound = (p_violations (protocol_run bound) = [])"

section \<open>Randomized trial sampling\<close>

text \<open>
  The process-wide generator of \<^verbatim>\<open>random\<close> is a parameter \<open>rnd\<close>: \<open>rnd i\<close> is the
  raw draw of the \<open>i\<close>-th call of the run, and every theorem quantifies over it.
  \<^verbatim>\<open>random.choice(seq)\<close> is \<^verbatim>\<open>seq[k]\<close> for the index \<open>k\<close> drawn below
  \<^verbatim>\<open>len(seq)\<close>; the source calls it on non-empty lists only.

  A dict lookup \<^verbatim>\<open>d[k]\<close> raises \<^verbatim>\<open>KeyError\<close> on a missing key. No function here
  catches it, so a raise ends the whole check: it is the result \<open>None\<close>.
\<close>

definition choice :: "(nat \<Rightarrow> nat) \<Rightarrow> nat \<Rightarrow> 'a list \<Rightarrow> 'a" where
  "choice rnd i xs = xs ! (rnd i mod length xs)"

subsection \<open>Replay model\<close>

definition REQUESTS :: "string list" where
  "REQUESTS = [''req_a'', ''req_b'']"

definition REPLAY_DIGESTS :: "string list" where
  "REPLAY_DIGESTS = [''d_x'', ''d_y'', ''d_z'']"

definition NODES :: "string list" where
  "NODES = [''node_1'', ''node_2'', ''node_3'']"

datatype replay_violation =
    REPLAY_INV_1 string "string list"
  | REPLAY_INV_3 string string string string

text \<open>
  \<^verbatim>\<open>exec_fn = {r: random.choice(DIGESTS) for r in REQUESTS}\<close>, drawn from position
  \<open>pos\<close> of the generator on: one draw per request.
\<close>

definition sample_exec_fn :: "(nat \<Rightarrow> nat) \<Rightarrow> nat \<Rightarrow> (string \<times> string) list" where
  "sample_exec_fn rnd pos =
     map (\<lambda>(j, r). (r, choice rnd (pos + j) REPLAY_DIGESTS)) (enumerate 0 REQUESTS)"

text \<open>
  The first double loop fills \<^verbatim>\<open>results\<close>, the second \<^verbatim>\<open>replay_log\<close>. The keys
  \<^verbatim>\<open>(n, r)\<close> are pairwise distinct, so every assignment adds an item.
\<close>

definition execute_all :: "(string \<times> string) list \<Rightarrow> ((string \<times> string) \<times> string) list option" where
  "execute_all exec_fn =
     those (concat (map (\<lambda>n.
       map (\<lambda>r. map_option (\<lambda>d. ((n, r), d)) (map_of exec_fn r)) REQUESTS) NODES))"

definition replay_all :: "(string \<times> string) list \<Rightarrow> (string \<times> string \<times> string) list option" where
  "replay_all exec_fn =
     those (concat (map (\<lambda>n.
       map (\<lambda>r. map_option (\<lambda>d. (n, r, d)) (map_of exec_fn r)) REQUESTS) NODES))"

definition replay_inv_1 ::
  "((string \<times> string) \<times> string) list \<Rightarrow> replay_violation list option" where
  "replay_inv_1 results =
     map_option concat (those (map (\<lambda>r.
       map_option (\<lambda>ds. if length (remdups ds) > 1 then [REPLAY_INV_1 r (remdups ds)] else [])
         (those (map (\<lambda>n. map_of results (n, r)) NODES))) REQUESTS))"

definition replay_inv_3 ::
  "((string \<times> string) \<times> string) list \<Rightarrow> (string \<times> string \<times> string) list \<Rightarrow>
   replay_violation list option" where
  "replay_inv_3 results replay_log =
     map_option concat (those (map (\<lambda>(n, r, d).
       map_option (\<lambda>orig. if orig \<noteq> d then [REPLAY_INV_3 n r d orig] else [])
         (map_of results (n, r))) replay_log))"

text \<open>The body of one trial, after \<^verbatim>\<open>exec_fn\<close> is fixed: the violations it appends.\<close>

definition replay_trial :: "(string \<times> string) list \<Rightarrow> replay_violation list option" where
  "replay_trial exec_fn =
     (case execute_all exec_fn of
        None \<Rightarrow> None
      | Some results \<Rightarrow>
          (case replay_all exec_fn of
             None \<Rightarrow> None
           | Some replay_log \<Rightarrow>
               (case replay_inv_1 results of
                  None \<Rightarrow> None
                | Some v1 \<Rightarrow>
                    (case replay_inv_3 results replay_log of
                       None \<Rightarrow> None
                     | Some v3 \<Rightarrow> Some (v1 @ v3)))))"

text \<open>
  The variables of \<^verbatim>\<open>check_replay\<close>. \<open>r_sampled\<close> is a ghost log of the
  \<^verbatim>\<open>exec_fn\<close> of every trial run, in order; \<open>r_reported\<close> is the number the PASS line
  prints as the count of trials (\<open>None\<close> when FAIL lines are printed instead).
\<close>

record replay_result =
  r_passed :: bool
  r_violations :: "replay_violation list"
  r_sampled :: "(string \<times> string) list list"
  r_reported :: "int option"

text \<open>
  \<^verbatim>\<open>for trial in range(min(bound, 20))\<close>, as recursion on the number of trials left;
  \<open>pos\<close> counts the draws made so far.
\<close>

fun replay_trials ::
  "(nat \<Rightarrow> nat) \<Rightarrow> nat \<Rightarrow> nat \<Rightarrow>
   (replay_violation list \<times> (string \<times> string) list list) option" where
  "replay_trials rnd pos 0 = Some ([], [])"
| "replay_trials rnd pos (Suc n) =
     (let exec_fn = sample_exec_fn rnd pos in
      case replay_trial exec_fn of
        None \<Rightarrow> None
      | Some vs \<Rightarrow>
          (case replay_trials rnd (pos + length REQUESTS) n of
             None \<Rightarrow> None
           | Some (ws, fs) \<Rightarrow> Some (vs @ ws, exec_fn # fs)))"

definition check_replay :: "(nat \<Rightarrow> nat) \<Rightarrow> int \<Rightarrow> replay_result option" where
  "check_replay rnd bound =
     (case replay_trials rnd 0 (nat (min bound 20)) of
        None \<Rightarrow> None
      | Some (violations, sampled) \<Rightarrow>
          Some \<lparr>r_passed = (violations = []),
                r_violations = violations,
                r_sampled = sampled,
                r_reported = (if violations = [] then Some bound else None)\<rparr>)"

subsection \<open>Determinism model\<close>













section \<open>PolicyCompiler model: exhaustive subset enumeration\<close>

text \<open>
  \<^verbatim>\<open>check_policy_compiler(bound, verbose, policy_file)\<close>; \<^verbatim>\<open>bound\<close> is not read and
  \<^verbatim>\<open>verbose\<close> only prints. The input is the object \<^verbatim>\<open>json.load\<close> returned, \<open>None\<close>
  when no file was named: an object in which each of the three keys may be missing, and a
  key that is present holds a value of the documented shape (a list of names, an object from
  names to lists of names, a list of lists of names). A Python set of names is a list
  without repetitions, read through \<open>set\<close>.
\<close>

record policy_file =
  pf_policies :: "string list option"
  pf_map :: "(string \<times> string list) list option"
  pf_conflicts :: "string list list option"

record policy_defs =
  POLICIES :: "string list"
  COMPILER_MAP :: "(string \<times> string list) list"
  CONFLICTS :: "string list list"

definition default_defs :: policy_defs where
  "default_defs =
     \<lparr>POLICIES = [''p1'', ''p2'', ''p3''],
      COMPILER_MAP = [(''p1'', [''c1'']), (''p2'', [''c2'']), (''p3'', [''c3''])],
      CONFLICTS = [[''c1'', ''c2'']]\<rparr>"

text \<open>
  The \<^verbatim>\<open>if policy_file:\<close> branch: \<^verbatim>\<open>data.get(key, default)\<close> for each key, then
  the conversions of the lists to sets.
\<close>

definition dict_get :: "'a option \<Rightarrow> 'a \<Rightarrow> 'a" where
  "dict_get field dflt = (case field of Some v \<Rightarrow> v | None \<Rightarrow> dflt)"

definition load_definitions :: "policy_file option \<Rightarrow> policy_defs" where
  "load_definitions policy_file =
     (case policy_file of
        Some data \<Rightarrow>
          \<lparr>POLICIES = dict_get (pf_policies data) [],
           COMPILER_MAP = map (\<lambda>(k, v). (k, remdups v)) (dict_get (pf_map data) []),
           CONFLICTS = map remdups (dict_get (pf_conflicts data) [])\<rparr>
      | None \<Rightarrow> default_defs)"

datatype policy_violation =
    POLICY_INV_1 string
  | POLICY_INV_2 string string

text \<open>\<^verbatim>\<open>itertools.combinations(xs, r)\<close>: the sublists of length \<open>r\<close>, by position.\<close>

fun combinations :: "'a list \<Rightarrow> nat \<Rightarrow> 'a list list" where
  "combinations xs 0 = [[]]"
| "combinations [] (Suc r) = []"
| "combinations (x # xs) (Suc r) = map ((#) x) (combinations xs r) @ combinations xs (Suc r)"

definition all_subsets :: "'a list \<Rightarrow> 'a list list" where
  "all_subsets xs = concat (map (combinations xs) [0..<length xs + 1])"

text \<open>
  The compile action: \<^verbatim>\<open>generated_constraints.update(COMPILER_MAP[p])\<close> for every
  active policy; a policy without an entry in the map raises \<^verbatim>\<open>KeyError\<close>.
\<close>

fun compile :: "(string \<times> string list) list \<Rightarrow> string list \<Rightarrow> string list \<Rightarrow> string list option" where
  "compile cm [] generated = Some generated"
| "compile cm (p # ps) generated =
     (case map_of cm p of
        None \<Rightarrow> None
      | Some cs \<Rightarrow> compile cm ps (List.union generated cs))"

text \<open>\<^verbatim>\<open>{c1, c2} in CONFLICTS\<close>: some element of the list equals the set.\<close>

definition in_conflicts :: "string list list \<Rightarrow> string \<Rightarrow> string \<Rightarrow> bool" where
  "in_conflicts conflicts c1 c2 = list_ex (\<lambda>X. set X = {c1, c2}) conflicts"

definition has_conflict :: "string list list \<Rightarrow> string list \<Rightarrow> bool" where
  "has_conflict conflicts generated =
     list_ex (\<lambda>c1. list_ex (\<lambda>c2. c1 \<noteq> c2 \<and> in_conflicts conflicts c1 c2) generated) generated"

definition policy_inv_1 ::
  "(string \<times> string list) list \<Rightarrow> string list \<Rightarrow> string list \<Rightarrow> policy_violation list option" where
  "policy_inv_1 cm active generated =
     map_option concat (those (map (\<lambda>p.
       map_option (\<lambda>cs. if \<not> set cs \<subseteq> set generated then [POLICY_INV_1 p] else [])
         (map_of cm p)) active))"

definition policy_inv_2 :: "string list list \<Rightarrow> string list \<Rightarrow> policy_violation list" where
  "policy_inv_2 conflicts generated =
     concat (map (\<lambda>c1.
       concat (map (\<lambda>c2. if in_conflicts conflicts c1 c2 then [POLICY_INV_2 c1 c2] else [])
         generated)) generated)"

text \<open>The body of the subset loop: the violations one subset appends.\<close>

definition check_subset :: "policy_defs \<Rightarrow> string list \<Rightarrow> policy_violation list option" where
  "check_subset defs sub =
     (let active = remdups sub in
      case compile (COMPILER_MAP defs) active [] of
        None \<Rightarrow> None
      | Some generated \<Rightarrow>
          if \<not> has_conflict (CONFLICTS defs) generated then
            (case policy_inv_1 (COMPILER_MAP defs) active generated of
               None \<Rightarrow> None
             | Some v1 \<Rightarrow> Some (v1 @ policy_inv_2 (CONFLICTS defs) generated))
          else Some [])"

fun check_subsets :: "policy_defs \<Rightarrow> string list list \<Rightarrow> policy_violation list option" where
  "check_subsets defs [] = Some []"
| "check_subsets defs (sub # rest) =
     (case check_subset defs sub of
        None \<Rightarrow> None
      | Some vs \<Rightarrow> map_option ((@) vs) (check_subsets defs rest))"

text \<open>
  The result: the value returned, the violations, and the subsets enumerated (a ghost
  log). \<open>None\<close> is the uncaught \<^verbatim>\<open>KeyError\<close>.
\<close>

record policy_result =
  pc_passed :: bool
  pc_violations :: "policy_violation list"
  pc_subsets :: "string list list"

definition check_policy_compiler :: "policy_file option \<Rightarrow> policy_result option" where
  "check_policy_compiler policy_file =
     (let defs = load_definitions policy_file;
          subsets = all_subsets (POLICIES defs)
      in map_option (\<lambda>violations.
           \<lparr>pc_passed = (violations = []), pc_violations = violations, pc_subsets = subsets\<rparr>)
         (check_subsets defs subsets))"

section \<open>Properties\<close>

text \<open>
  A stream is well formed when it is empty or starts with the start tag, and, once
  terminated, ends with a terminal tag.
\<close>

definition well_formed :: "string list \<times> bool \<Rightarrow> bool" where
  "well_formed x =
     (case x of (stream, terminated) \<Rightarrow>
        (stream = [] \<or> hd stream = ''start'') \<and>
        (\<not> terminated \<or> (stream \<noteq> [] \<and> last stream \<in> TERMINAL)))"

text \<open>A run of \<open>explore\<close> that visited the states \<open>vs\<close> and appended no violation.\<close>

definition advance :: "proto_run \<Rightarrow> (string list \<times> bool) list \<Rightarrow> proto_run" where
  "advance st vs =
     st\<lparr>p_explored := p_explored st + length vs, p_visited := p_visited st @ vs\<rparr>"

text \<open>
  Collision accuracy: every recorded error \<open>(d, c)\<close> has \<open>d\<close> in the store with a
  content other than \<open>c\<close>.
\<close>

definition errors_accurate :: "cas_state \<Rightarrow> bool" where
  "errors_accurate s =
     (\<forall>(d, c)\<in>set (errors s). \<exists>c'. map_of (store s) d = Some c' \<and> c' \<noteq> c)"

text \<open>Every committed write \<open>(d, c)\<close> is what the store holds at \<open>d\<close>.\<close>

definition writes_stored :: "cas_state \<Rightarrow> bool" where
  "writes_stored s = (\<forall>(d, c)\<in>set (writes_ok s). map_of (store s) d = Some c)"

text \<open>
  A search state in which no violation has been recorded: every state logged so far
  passed its invariants. And a search state that stopped at its first violation: the
  violations are those of the last state logged, and every state logged before it passed.
\<close>

definition bfs_clean :: "bfs_state \<Rightarrow> bool" where
  "bfs_clean st =
     (c_violations st = [] \<and> c_explored st = length (c_trace st) \<and>
      (\<forall>s\<in>set (c_trace st). cas_invariants s = []))"

definition bfs_halted :: "bfs_state \<Rightarrow> bool" where
  "bfs_halted r =
     (\<exists>pre s. c_trace r = pre @ [s] \<and> c_violations r = cas_invariants s \<and>
        c_violations r \<noteq> [] \<and> c_explored r = length pre + 1 \<and>
        (\<forall>x\<in>set pre. cas_invariants x = []))"

text \<open>
  A search state without violation whose queued and logged states are all reachable from
  the empty initial state.
\<close>

definition bfs_reachable :: "bfs_state \<Rightarrow> bool" where
  "bfs_reachable st =
     (c_violations st = [] \<and>
      (\<forall>(s, depth)\<in>set (c_queue st). cas_step\<^sup>*\<^sup>* cas_init s) \<and>
      (\<forall>s\<in>set (c_trace st). cas_step\<^sup>*\<^sup>* cas_init s))"

text \<open>Concrete inputs for the instances below.\<close>

definition bad_state :: cas_state where
  "bad_state = \<lparr>store = [(''d1'', ''c_a'')], writes_ok = [(''d1'', ''c_b'')], errors = []\<rparr>"

definition zero_draws :: "nat \<Rightarrow> nat" where
  "zero_draws i = 0"

definition count_draws :: "nat \<Rightarrow> nat" where
  "count_draws i = i"

text \<open>What a run of the Replay check shows: the trials it ran and the count it printed.\<close>

definition trials_run :: "replay_result option \<Rightarrow> nat option" where
  "trials_run res = map_option (\<lambda>r. length (r_sampled r)) res"

definition trials_reported :: "replay_result option \<Rightarrow> int option" where
  "trials_reported res = (case res of Some r \<Rightarrow> r_reported r | None \<Rightarrow> None)"






text \<open>
  Two policy files with missing keys: the empty object, and one that lists a policy but has
  no \<^verbatim>\<open>map\<close>.
\<close>

definition empty_object :: policy_file where
  "empty_object = \<lparr>pf_policies = None, pf_map = None, pf_conflicts = None\<rparr>"

definition no_map_object :: policy_file where
  "no_map_object = \<lparr>pf_policies = Some [''p1''], pf_map = None, pf_conflicts = Some []\<rparr>"

section \<open>CAS: the write action and the search loop\<close>

lemma in_successors:
  "s' \<in> set (successors s) \<longleftrightarrow>
   (\<exists>d\<in>set DIGESTS. \<exists>c\<in>set CONTENT. (d, c) \<notin> set (writes_ok s) \<and> s' = cas_write s d c)"
  by (auto simp: successors_def)

lemma cas_write_store_keeps:
  "map_of (store s) d = Some c \<Longrightarrow> map_of (store (cas_write s d' c')) d = Some c"
  by (auto simp: cas_write_def map_add_def split: option.splits)

lemma cas_step_store_keeps:
  "cas_step s s' \<Longrightarrow> map_of (store s) d = Some c \<Longrightarrow> map_of (store s') d = Some c"
  by (auto simp: cas_step_def in_successors cas_write_store_keeps)

lemma cas_future_store_keeps:
  "cas_step\<^sup>*\<^sup>* s s' \<Longrightarrow> map_of (store s) d = Some c \<Longrightarrow> map_of (store s') d = Some c"
  by (induction rule: rtranclp_induct) (auto intro: cas_step_store_keeps)

lemma errors_accurate_init: "errors_accurate cas_init"
  by (simp add: errors_accurate_def cas_init_def)

lemma errors_accurate_write:
  "errors_accurate s \<Longrightarrow> errors_accurate (cas_write s d c)"
  by (auto simp: errors_accurate_def cas_write_def map_add_def split: option.splits)

lemma errors_accurate_step: "cas_step s s' \<Longrightarrow> errors_accurate s \<Longrightarrow> errors_accurate s'"
  by (auto simp: cas_step_def in_successors errors_accurate_write)

lemma errors_accurate_reachable: "cas_step\<^sup>*\<^sup>* cas_init s \<Longrightarrow> errors_accurate s"
  by (induction rule: rtranclp_induct) (auto intro: errors_accurate_init errors_accurate_step)

lemma bfs_stops: "c_violations st \<noteq> [] \<Longrightarrow> bfs bound st = st"
  by (subst bfs.simps) simp

lemma bfs_step_clean:
  assumes "bfs_clean st"
  shows "bfs_clean (bfs_step bound st) \<or> bfs_halted (bfs_step bound st)"
proof (cases "c_queue st")
  case Nil
  then show ?thesis using assms by (simp add: bfs_step_def)
next
  case (Cons p rest)
  obtain s depth where p: "p = (s, depth)" by (cases p)
  show ?thesis
  proof (cases "state_key s \<in> c_visited st")
    case True
    then show ?thesis using assms Cons p by (simp add: bfs_step_def bfs_clean_def)
  next
    case new: False
    show ?thesis
    proof (cases "cas_invariants s = []")
      case True
      then have "bfs_clean (bfs_step bound st)"
        using assms Cons p new by (simp add: bfs_step_def bfs_clean_def Let_def)
      then show ?thesis ..
    next
      case False
      then have "bfs_halted (bfs_step bound st)"
        using assms Cons p new
        by (simp add: bfs_step_def bfs_clean_def bfs_halted_def Let_def)
      then show ?thesis ..
    qed
  qed
qed

lemma bfs_halted_violations: "bfs_halted st \<Longrightarrow> c_violations st \<noteq> []"
  by (auto simp: bfs_halted_def)

lemma bfs_clean_or_halted:
  "bfs_clean st \<Longrightarrow> bfs_clean (bfs bound st) \<or> bfs_halted (bfs bound st)"
proof (induction bound st rule: bfs.induct)
  case (1 bound st)
  show ?case
  proof (cases "c_queue st \<noteq> [] \<and> c_violations st = []")
    case True
    then have unf: "bfs bound st = bfs bound (bfs_step bound st)"
      by (subst bfs.simps) simp
    from bfs_step_clean[OF "1.prems"] show ?thesis
    proof
      assume "bfs_clean (bfs_step bound st)"
      then show ?thesis using "1.IH"[OF True] unf by simp
    next
      assume h: "bfs_halted (bfs_step bound st)"
      then have "bfs bound (bfs_step bound st) = bfs_step bound st"
        by (intro bfs_stops bfs_halted_violations)
      then show ?thesis using h unf by simp
    qed
  next
    case False
    then have "bfs bound st = st"
      by (subst bfs.simps) auto
    then show ?thesis using "1.prems" by simp
  qed
qed

lemma bfs_start_clean: "bfs_clean (bfs_start q)"
  by (simp add: bfs_clean_def bfs_start_def)

lemma errors_accurate_inv_4: "errors_accurate s \<Longrightarrow> cas_inv_4 s = []"
  by (auto simp: errors_accurate_def cas_inv_4_def split: option.splits)

lemma writes_stored_write: "writes_stored s \<Longrightarrow> writes_stored (cas_write s d c)"
  by (auto simp: writes_stored_def cas_write_def map_add_def split: option.splits)

lemma writes_stored_reachable: "cas_step\<^sup>*\<^sup>* cas_init s \<Longrightarrow> writes_stored s"
proof (induction rule: rtranclp_induct)
  case base
  show ?case by (simp add: writes_stored_def cas_init_def)
next
  case (step y z)
  then show ?case
    by (auto simp: cas_step_def in_successors writes_stored_write)
qed

lemma cas_invariants_reachable: "cas_step\<^sup>*\<^sup>* cas_init s \<Longrightarrow> cas_invariants s = []"
proof -
  assume r: "cas_step\<^sup>*\<^sup>* cas_init s"
  have w: "writes_stored s"
    by (rule writes_stored_reachable[OF r])
  have "cas_inv_1 s = []"
    using w by (auto simp: cas_inv_1_def writes_stored_def)
  moreover have "cas_inv_2 s = []"
    using w by (auto simp: cas_inv_2_def writes_stored_def)
  moreover have "cas_inv_4 s = []"
    by (rule errors_accurate_inv_4[OF errors_accurate_reachable[OF r]])
  ultimately show ?thesis
    by (simp add: cas_invariants_def)
qed

lemma bfs_step_reachable:
  assumes "bfs_reachable st"
  shows "bfs_reachable (bfs_step bound st)"
proof (cases "c_queue st")
  case Nil
  then show ?thesis using assms by (simp add: bfs_step_def)
next
  case (Cons p rest)
  obtain s depth where p: "p = (s, depth)" by (cases p)
  have r: "cas_step\<^sup>*\<^sup>* cas_init s"
    using assms Cons p by (simp add: bfs_reachable_def)
  have inv: "cas_invariants s = []"
    by (rule cas_invariants_reachable[OF r])
  have succ: "cas_step\<^sup>*\<^sup>* cas_init s'" if "s' \<in> set (successors s)" for s'
    using r that by (auto simp: cas_step_def intro: rtranclp.rtrancl_into_rtrancl)
  show ?thesis
    using assms Cons p r inv succ
    by (auto simp: bfs_step_def bfs_reachable_def Let_def)
qed

lemma bfs_reachable_run: "bfs_reachable st \<Longrightarrow> bfs_reachable (bfs bound st)"
proof (induction bound st rule: bfs.induct)
  case (1 bound st)
  show ?case
  proof (cases "c_queue st \<noteq> [] \<and> c_violations st = []")
    case True
    then have "bfs bound st = bfs bound (bfs_step bound st)"
      by (subst bfs.simps) simp
    then show ?thesis
      using "1.IH"[OF True bfs_step_reachable[OF "1.prems"]] by simp
  next
    case False
    then have "bfs bound st = st"
      by (subst bfs.simps) auto
    then show ?thesis using "1.prems" by simp
  qed
qed

lemma check_cas_passes:
  "check_cas bound \<and> (\<forall>s\<in>set (c_trace (cas_run bound)). cas_step\<^sup>*\<^sup>* cas_init s)"
proof -
  have "bfs_reachable (bfs_start [(cas_init, 0)])"
    by (simp add: bfs_reachable_def bfs_start_def)
  from bfs_reachable_run[OF this, of bound] show ?thesis
    by (simp add: check_cas_def cas_run_def bfs_reachable_def)
qed

section \<open>Protocol: exploration from a well-formed stream\<close>

lemma find_enumerate_pos:
  "0 < n \<Longrightarrow> find (\<lambda>(i, f). P f \<and> i = (0::nat)) (enumerate n xs) = None"
  by (auto simp: find_None_iff in_set_enumerate_eq)

lemma check_state_None_iff: "check_state s t = None \<longleftrightarrow> well_formed (s, t)"
  by (cases s) (auto simp: check_state_def well_formed_def find_enumerate_pos split: option.splits)

lemma explore_root_violation:
  "check_state s t = Some e \<Longrightarrow>
   explore b st s t d = (enter st s t)\<lparr>p_violations := p_violations st @ [e]\<rparr>"
  by (subst explore.simps) (simp add: enter_def)

lemma well_formed_start: "well_formed ([''start''], False)"
  by (simp add: well_formed_def)

lemma well_formed_append:
  "well_formed (s, False) \<Longrightarrow> s \<noteq> [] \<Longrightarrow> well_formed (s @ [x], x \<in> TERMINAL)"
  by (cases s) (auto simp: well_formed_def)

lemma advance_advance: "advance (advance st vs) ws = advance st (vs @ ws)"
  by (simp add: advance_def)

lemma enter_advance: "enter st s t = advance st [(s, t)]"
  by (simp add: enter_def advance_def)

lemma explore_well_formed:
  "well_formed (s, t) \<Longrightarrow>
   \<exists>vs. explore b st s t d = advance st ((s, t) # vs) \<and> (\<forall>x\<in>set vs. well_formed x)"
proof (induction b st s t d rule: explore.induct)
  case (1 bound st stream terminated depth)
  let ?st1 = "enter st stream terminated"
  have cs: "check_state stream terminated = None"
    using "1.prems" by (simp add: check_state_None_iff)
  have T: "''result'' \<in> TERMINAL" "''error'' \<in> TERMINAL" "''event'' \<notin> TERMINAL" "''end'' \<notin> TERMINAL"
    by (simp_all add: TERMINAL_def)
  show ?case
  proof (cases "terminated \<or> bound \<le> depth")
    case True
    then have "explore bound st stream terminated depth = advance st [(stream, terminated)]"
      by (subst explore.simps) (auto simp add: cs Let_def enter_advance)
    then show ?thesis by (intro exI[of _ "[]"]) simp
  next
    case nb: False
    then have nt: "\<not> terminated" by simp
    show ?thesis
    proof (cases "stream = []")
      case True
      obtain vs where vs: "explore bound ?st1 [''start''] False (depth + 1) = advance ?st1 (([''start''], False) # vs)"
        "\<forall>x\<in>set vs. well_formed x"
        using "1.IH"(1)[OF refl cs nb True well_formed_start] by blast
      have "explore bound st stream terminated depth = explore bound ?st1 [''start''] False (depth + 1)"
        using nb True cs by (subst explore.simps) (simp add: Let_def)
      also have "\<dots> = advance ?st1 (([''start''], False) # vs)"
        by (rule vs(1))
      also have "\<dots> = advance st ((stream, terminated) # ([''start''], False) # vs)"
        by (simp add: enter_advance advance_advance)
      finally show ?thesis using vs(2) well_formed_start
        by (intro exI[of _ "([''start''], False) # vs"]) simp
    next
      case ne: False
      with "1.prems" have hd: "hd stream = ''start''"
        by (simp add: well_formed_def)
      have wf: "well_formed (stream @ [x], x \<in> TERMINAL)" for x
        using "1.prems" nt ne by (simp add: well_formed_append)
      let ?st2 = "explore bound ?st1 (stream @ [''event'']) False (depth + 1)"
      let ?st3 = "if ''end'' \<notin> set stream
                  then explore bound ?st2 (stream @ [''end'']) False (depth + 1) else ?st2"
      let ?st4 = "explore bound ?st3 (stream @ [''result'']) True (depth + 1)"
      let ?st5 = "explore bound ?st4 (stream @ [''error'']) True (depth + 1)"
      obtain v2 where v2: "?st2 = advance ?st1 v2" "\<forall>x\<in>set v2. well_formed x"
        using "1.IH"(2)[OF refl cs nb ne hd nt] wf[of "''event''"] T by auto
      obtain v3 where v3: "?st3 = advance ?st2 v3" "\<forall>x\<in>set v3. well_formed x"
      proof (cases "''end'' \<in> set stream")
        case True
        then have "?st3 = advance ?st2 []" by (simp add: advance_def)
        then show ?thesis using that[of "[]"] by simp
      next
        case False
        then show ?thesis
          using "1.IH"(3)[OF refl cs nb ne hd nt refl False] wf[of "''end''"] T that by auto
      qed
      obtain v4 where v4: "?st4 = advance ?st3 v4" "\<forall>x\<in>set v4. well_formed x"
        using "1.IH"(4)[OF refl cs nb ne hd nt refl refl] wf[of "''result''"] T by auto
      obtain v5 where v5: "?st5 = advance ?st4 v5" "\<forall>x\<in>set v5. well_formed x"
        using "1.IH"(5)[OF refl cs nb ne hd nt refl refl refl] wf[of "''error''"] T by auto
      have "explore bound st stream terminated depth = ?st5"
        using nb ne hd cs by (subst explore.simps) (simp add: Let_def)
      also have "\<dots> = advance (advance (advance (advance ?st1 v2) v3) v4) v5"
        by (subst v5(1), subst v4(1), subst v3(1), subst v2(1)) (rule refl)
      also have "\<dots> = advance st ((stream, terminated) # v2 @ v3 @ v4 @ v5)"
        by (simp add: enter_advance advance_advance)
      finally show ?thesis using v2(2) v3(2) v4(2) v5(2)
        by (intro exI[of _ "v2 @ v3 @ v4 @ v5"]) auto
    qed
  qed
qed

lemma protocol_run_eq:
  "\<exists>vs. protocol_run bound = advance proto_init (([], False) # vs) \<and> (\<forall>x\<in>set vs. well_formed x)"
  unfolding protocol_run_def
  by (rule explore_well_formed) (simp add: well_formed_def)

section \<open>Replay: every trial agrees with itself\<close>

lemma sample_exec_fn_eq:
  "sample_exec_fn rnd pos =
     [(''req_a'', choice rnd pos REPLAY_DIGESTS), (''req_b'', choice rnd (pos + 1) REPLAY_DIGESTS)]"
  by (simp add: sample_exec_fn_def REQUESTS_def)

lemma replay_trial_fixed:
  "replay_trial [(''req_a'', da), (''req_b'', db)] = Some []"
  by (simp add: replay_trial_def execute_all_def replay_all_def replay_inv_1_def
      replay_inv_3_def NODES_def REQUESTS_def)

lemma replay_trials_eq:
  "replay_trials rnd pos n =
     Some ([], map (\<lambda>t. sample_exec_fn rnd (pos + 2 * t)) [0..<n])"
proof (induction n arbitrary: pos)
  case 0
  show ?case by simp
next
  case (Suc n)
  have "map (\<lambda>t. sample_exec_fn rnd (pos + 2 * t)) [0..<Suc n] =
        sample_exec_fn rnd pos # map (\<lambda>t. sample_exec_fn rnd (pos + 2 + 2 * t)) [0..<n]"
    by (simp add: upt_conv_Cons map_Suc_upt[symmetric] del: upt_Suc)
  then show ?case
    using Suc[of "pos + 2"]
    by (simp add: Let_def sample_exec_fn_eq replay_trial_fixed REQUESTS_def del: upt_Suc)
qed

lemma choice_in: "xs \<noteq> [] \<Longrightarrow> choice rnd i xs \<in> set xs"
  by (simp add: choice_def)

lemma check_replay_eq:
  "check_replay rnd bound =
     Some \<lparr>r_passed = True, r_violations = [],
           r_sampled = map (\<lambda>t. sample_exec_fn rnd (2 * t)) [0..<nat (min bound 20)],
           r_reported = Some bound\<rparr>"
  by (simp add: check_replay_def replay_trials_eq)

section \<open>Determinism: the recorded digests are the hash of their input\<close>











section \<open>PolicyCompiler: compilation and the two invariants\<close>



lemma no_conflict_pairs:
  "\<not> has_conflict conflicts gen \<longleftrightarrow>
   (\<forall>c1\<in>set gen. \<forall>c2\<in>set gen. c1 \<noteq> c2 \<longrightarrow> \<not> in_conflicts conflicts c1 c2)"
  by (auto simp: has_conflict_def list_ex_iff)

lemma in_conflicts_same:
  "\<forall>X\<in>set conflicts. card (set X) = 2 \<Longrightarrow> \<not> in_conflicts conflicts c c"
  by (auto simp: in_conflicts_def list_ex_iff)

lemma policy_inv_2_none:
  "\<forall>X\<in>set conflicts. card (set X) = 2 \<Longrightarrow> \<not> has_conflict conflicts gen \<Longrightarrow>
   policy_inv_2 conflicts gen = []"
proof -
  assume p: "\<forall>X\<in>set conflicts. card (set X) = 2" and n: "\<not> has_conflict conflicts gen"
  have "\<not> in_conflicts conflicts c1 c2" if "c1 \<in> set gen" "c2 \<in> set gen" for c1 c2
    using that n in_conflicts_same[OF p] unfolding no_conflict_pairs by (cases "c1 = c2") auto
  then show ?thesis
    by (simp add: policy_inv_2_def)
qed

lemma check_subsets_raises:
  "sub \<in> set subs \<Longrightarrow> check_subset defs sub = None \<Longrightarrow> check_subsets defs subs = None"
  by (induction subs) (auto split: option.splits)

lemma singleton_in_all_subsets: "[p] \<in> set (all_subsets (p # ps))"
proof -
  have "[p] \<in> set (combinations (p # ps) (Suc 0))"
    by simp
  moreover have "Suc 0 \<in> set [0..<length (p # ps) + 1]"
    unfolding set_upt by simp
  ultimately show ?thesis
    unfolding all_subsets_def set_concat set_map by blast
qed

section \<open>The claims on the CAS model\<close>

text \<open>
  C3 (CAS immutability). Let \<open>s\<close> be a state reachable from the empty initial state by
  write actions, and \<open>s'\<close> a state reachable from \<open>s\<close>. Every digest \<open>d\<close> that the
  store of \<open>s\<close> maps to a content \<open>c\<close> is mapped to the same \<open>c\<close> by the store of
  \<open>s'\<close>: no later write changes the value committed for a digest.
\<close>

theorem cas_immutability:
  "cas_step\<^sup>*\<^sup>* cas_init s \<Longrightarrow> cas_step\<^sup>*\<^sup>* s s' \<Longrightarrow>
   map_of (store s) d = Some c \<Longrightarrow> map_of (store s') d = Some c"
  by (rule cas_future_store_keeps)

text \<open>
  An instance of C3: after \<^verbatim>\<open>write(d1, c_a)\<close> and then \<^verbatim>\<open>write(d2, c_b)\<close> the store
  still holds \<^verbatim>\<open>c_a\<close> at \<^verbatim>\<open>d1\<close>.
\<close>

theorem cas_immutability_witness:
  "cas_step\<^sup>*\<^sup>* cas_init (cas_write cas_init ''d1'' ''c_a'') \<and>
   cas_step\<^sup>*\<^sup>* (cas_write cas_init ''d1'' ''c_a'')
     (cas_write (cas_write cas_init ''d1'' ''c_a'') ''d2'' ''c_b'') \<and>
   map_of (store (cas_write cas_init ''d1'' ''c_a'')) ''d1'' = Some ''c_a'' \<and>
   map_of (store (cas_write (cas_write cas_init ''d1'' ''c_a'') ''d2'' ''c_b'')) ''d1'' =
     Some ''c_a''"
proof -
  let ?s1 = "cas_write cas_init ''d1'' ''c_a''"
  let ?s2 = "cas_write ?s1 ''d2'' ''c_b''"
  have s1: "?s1 = \<lparr>store = [(''d1'', ''c_a'')], writes_ok = [(''d1'', ''c_a'')], errors = []\<rparr>"
    by (simp add: cas_write_def cas_init_def)
  have r1: "cas_step\<^sup>*\<^sup>* cas_init ?s1"
    by (rule r_into_rtranclp)
      (simp add: cas_step_def in_successors DIGESTS_def CONTENT_def cas_init_def)
  have r2: "cas_step\<^sup>*\<^sup>* ?s1 ?s2"
    by (rule r_into_rtranclp)
      (simp add: cas_step_def in_successors DIGESTS_def CONTENT_def s1)
  have st: "map_of (store ?s1) ''d1'' = Some ''c_a''"
    by (simp add: s1)
  show ?thesis
    using r1 r2 st cas_immutability[OF r1 r2 st] by simp
qed

text \<open>
  C5 (the collision scenario). From the empty store, \<^verbatim>\<open>write(d1, c_a)\<close> and then
  \<^verbatim>\<open>write(d1, c_b)\<close> are both legal actions, and they yield the store
  \<^verbatim>\<open>{d1: c_a}\<close>, unchanged by the second write, with \<^verbatim>\<open>(d1, c_b)\<close> recorded in the
  collision errors. In every state reachable from there the store still holds
  \<^verbatim>\<open>c_a\<close> at \<^verbatim>\<open>d1\<close>, never \<^verbatim>\<open>c_b\<close>.
\<close>

theorem cas_collision_scenario:
  "cas_step cas_init (cas_write cas_init ''d1'' ''c_a'') \<and>
   cas_step (cas_write cas_init ''d1'' ''c_a'')
     (cas_write (cas_write cas_init ''d1'' ''c_a'') ''d1'' ''c_b'') \<and>
   cas_write (cas_write cas_init ''d1'' ''c_a'') ''d1'' ''c_b'' =
     \<lparr>store = [(''d1'', ''c_a'')], writes_ok = [(''d1'', ''c_a'')],
      errors = [(''d1'', ''c_b'')]\<rparr> \<and>
   (\<forall>s'. cas_step\<^sup>*\<^sup>* (cas_write (cas_write cas_init ''d1'' ''c_a'') ''d1'' ''c_b'') s' \<longrightarrow>
      map_of (store s') ''d1'' = Some ''c_a'' \<and> map_of (store s') ''d1'' \<noteq> Some ''c_b'')"
proof -
  let ?s1 = "cas_write cas_init ''d1'' ''c_a''"
  let ?s2 = "cas_write ?s1 ''d1'' ''c_b''"
  have s1: "?s1 = \<lparr>store = [(''d1'', ''c_a'')], writes_ok = [(''d1'', ''c_a'')], errors = []\<rparr>"
    by (simp add: cas_write_def cas_init_def)
  have s2: "?s2 = \<lparr>store = [(''d1'', ''c_a'')], writes_ok = [(''d1'', ''c_a'')],
                   errors = [(''d1'', ''c_b'')]\<rparr>"
    by (simp add: s1) (simp add: cas_write_def)
  have a: "cas_step cas_init ?s1"
    by (simp add: cas_step_def in_successors DIGESTS_def CONTENT_def cas_init_def)
  have b: "cas_step ?s1 ?s2"
    by (simp add: cas_step_def in_successors DIGESTS_def CONTENT_def s1)
  have st: "map_of (store ?s2) ''d1'' = Some ''c_a''"
    by (simp add: s2)
  have c: "map_of (store s') ''d1'' = Some ''c_a''" if "cas_step\<^sup>*\<^sup>* ?s2 s'" for s'
    using cas_future_store_keeps[OF that st] .
  show ?thesis
    using a b s2 c by simp
qed

text \<open>
  An instance of C5: a further \<^verbatim>\<open>write(d2, c_b)\<close> leaves \<^verbatim>\<open>c_a\<close> at \<^verbatim>\<open>d1\<close>.
\<close>

theorem cas_collision_scenario_witness:
  "cas_step\<^sup>*\<^sup>* (cas_write (cas_write cas_init ''d1'' ''c_a'') ''d1'' ''c_b'')
     (cas_write (cas_write (cas_write cas_init ''d1'' ''c_a'') ''d1'' ''c_b'') ''d2'' ''c_b'') \<and>
   map_of (store (cas_write (cas_write (cas_write cas_init ''d1'' ''c_a'') ''d1'' ''c_b'')
     ''d2'' ''c_b'')) ''d1'' = Some ''c_a''"
proof -
  let ?s2 = "cas_write (cas_write cas_init ''d1'' ''c_a'') ''d1'' ''c_b''"
  have r: "cas_step\<^sup>*\<^sup>* ?s2 (cas_write ?s2 ''d2'' ''c_b'')"
    by (rule r_into_rtranclp)
      (simp add: cas_step_def in_successors DIGESTS_def CONTENT_def cas_write_def cas_init_def)
  show ?thesis
    using r cas_collision_scenario by blast
qed


text \<open>
  C8 (CAS collision accuracy). In every state reachable from the empty initial state, every
  pair \<open>(d, c)\<close> in the collision errors has \<open>d\<close> present in the store, with a content
  different from \<open>c\<close>; so the CAS-INV-4 loop of the check appends no message there.
\<close>

theorem cas_collision_accuracy:
  "cas_step\<^sup>*\<^sup>* cas_init s \<Longrightarrow>
   (\<forall>(d, c)\<in>set (errors s). \<exists>c'. map_of (store s) d = Some c' \<and> c' \<noteq> c) \<and> cas_inv_4 s = []"
  using errors_accurate_reachable[of s] errors_accurate_inv_4[of s]
  by (simp add: errors_accurate_def)

text \<open>
  An instance of C8: the state after \<^verbatim>\<open>write(d1, c_a)\<close> and \<^verbatim>\<open>write(d1, c_b)\<close> records
  the error \<^verbatim>\<open>(d1, c_b)\<close> while its store holds \<^verbatim>\<open>c_a\<close> at \<^verbatim>\<open>d1\<close>.
\<close>

theorem cas_collision_accuracy_witness:
  "cas_step\<^sup>*\<^sup>* cas_init (cas_write (cas_write cas_init ''d1'' ''c_a'') ''d1'' ''c_b'') \<and>
   (''d1'', ''c_b'') \<in> set (errors (cas_write (cas_write cas_init ''d1'' ''c_a'') ''d1'' ''c_b'')) \<and>
   map_of (store (cas_write (cas_write cas_init ''d1'' ''c_a'') ''d1'' ''c_b'')) ''d1'' = Some ''c_a'' \<and>
   cas_inv_4 (cas_write (cas_write cas_init ''d1'' ''c_a'') ''d1'' ''c_b'') = []"
proof -
  let ?s1 = "cas_write cas_init ''d1'' ''c_a''"
  let ?s2 = "cas_write ?s1 ''d1'' ''c_b''"
  have s1: "?s1 = \<lparr>store = [(''d1'', ''c_a'')], writes_ok = [(''d1'', ''c_a'')], errors = []\<rparr>"
    by (simp add: cas_write_def cas_init_def)
  have s2: "?s2 = \<lparr>store = [(''d1'', ''c_a'')], writes_ok = [(''d1'', ''c_a'')],
                   errors = [(''d1'', ''c_b'')]\<rparr>"
    by (simp add: s1) (simp add: cas_write_def)
  have "cas_step cas_init ?s1"
    by (simp add: cas_step_def in_successors DIGESTS_def CONTENT_def cas_init_def)
  moreover have "cas_step ?s1 ?s2"
    by (simp add: cas_step_def in_successors DIGESTS_def CONTENT_def s1)
  ultimately have r: "cas_step\<^sup>*\<^sup>* cas_init ?s2"
    by (meson rtranclp.rtrancl_into_rtrancl rtranclp.rtrancl_refl)
  show ?thesis
    using r cas_collision_accuracy[OF r] by (simp add: s2)
qed

section \<open>The claims on the Protocol model\<close>

text \<open>
  C7 (Protocol well-formedness). For every bound, every state the exploration from the
  empty stream visits is well formed: its stream is empty or has \<^verbatim>\<open>start\<close> as first tag,
  and if it is terminated, its last tag is \<^verbatim>\<open>result\<close> or \<^verbatim>\<open>error\<close>. So no violation
  is appended and \<^verbatim>\<open>check_protocol\<close> returns \<^verbatim>\<open>True\<close> for every bound. The ghost log
  has one entry per increment of \<^verbatim>\<open>explored\<close>.
\<close>

theorem protocol_well_formedness:
  "(\<forall>x\<in>set (p_visited (protocol_run bound)). well_formed x) \<and>
   p_violations (protocol_run bound) = [] \<and>
   p_explored (protocol_run bound) = length (p_visited (protocol_run bound)) \<and>
   check_protocol bound"
proof -
  obtain vs where vs: "protocol_run bound = advance proto_init (([], False) # vs)"
    "\<forall>x\<in>set vs. well_formed x"
    using protocol_run_eq by blast
  have "well_formed ([], False)"
    by (simp add: well_formed_def)
  then show ?thesis
    using vs(2) by (simp add: vs(1) check_protocol_def advance_def proto_init_def)
qed

text \<open>
  An instance of C7: with bound 2 the exploration visits six states, among them the
  terminated stream \<^verbatim>\<open>start, result\<close>, and the check passes.
\<close>

theorem protocol_well_formedness_witness:
  "([''start'', ''result''], True) \<in> set (p_visited (protocol_run 2)) \<and>
   well_formed ([''start'', ''result''], True) \<and>
   p_explored (protocol_run 2) = 6 \<and> check_protocol 2"
proof -
  have v: "p_visited (protocol_run 2) =
      [([], False), ([''start''], False), ([''start'', ''event''], False),
       ([''start'', ''end''], False), ([''start'', ''result''], True),
       ([''start'', ''error''], True)]"
    by (simp add: protocol_run_def explore.simps check_state_def enter_def proto_init_def
        Let_def TERMINAL_def)
  show ?thesis
    using protocol_well_formedness[of 2] by (simp add: v)
qed

section \<open>The claim on halting at the first violation\<close>

text \<open>
  C4 (a violation halts the exploration). CAS: the search, started on any queue, ends
  either with no violation recorded, or stopped at its first violation: the recorded
  violations are the messages of the last state whose invariants were evaluated, every
  state evaluated before it passed, and the loop returns as soon as its violations are not
  empty. Protocol: the exploration, started at any stream, flag and depth, ends either
  with no violation, or it recorded one violation at the state it was started at and
  visited nothing else. (\<^verbatim>\<open>explore\<close> tests no flag before it goes on to a sibling; it
  needs none, since below a state that passed \<^verbatim>\<open>check_state\<close> every state passes.)
\<close>

theorem first_violation_halts:
  "(bfs_clean (bfs bound (bfs_start q)) \<or> bfs_halted (bfs bound (bfs_start q))) \<and>
   (c_violations st \<noteq> [] \<longrightarrow> bfs bound st = st) \<and>
   (p_violations (explore bound proto_init stream terminated depth) = [] \<or>
    (\<exists>err. check_state stream terminated = Some err \<and>
       explore bound proto_init stream terminated depth =
         \<lparr>p_violations = [err], p_explored = 1, p_visited = [(stream, terminated)]\<rparr>))"
proof -
  have cas: "bfs_clean (bfs bound (bfs_start q)) \<or> bfs_halted (bfs bound (bfs_start q))"
    by (rule bfs_clean_or_halted) (rule bfs_start_clean)
  have stop: "c_violations st \<noteq> [] \<longrightarrow> bfs bound st = st"
    by (simp add: bfs_stops)
  have proto: "p_violations (explore bound proto_init stream terminated depth) = [] \<or>
    (\<exists>err. check_state stream terminated = Some err \<and>
       explore bound proto_init stream terminated depth =
         \<lparr>p_violations = [err], p_explored = 1, p_visited = [(stream, terminated)]\<rparr>)"
  proof (cases "check_state stream terminated")
    case None
    then have "well_formed (stream, terminated)"
      by (simp add: check_state_None_iff)
    from explore_well_formed[OF this, of bound proto_init depth]
    show ?thesis
      by (auto simp: advance_def proto_init_def)
  next
    case (Some err)
    then show ?thesis
      by (simp add: explore_root_violation enter_def proto_init_def)
  qed
  show ?thesis
    using cas stop proto by blast
qed

text \<open>
  An instance of C4: a queue whose first state breaks CAS-INV-1 and CAS-INV-2 stops the
  search after that state, the second entry left in the queue; an exploration started at
  the stream \<^verbatim>\<open>event\<close> records PROTO-INV-1 and visits that one state.
\<close>

theorem first_violation_halts_witness:
  "c_violations (bfs 3 (bfs_start [(bad_state, 0), (cas_init, 0)])) =
     [CAS_INV_1 ''d1'' ''c_a'' ''c_b'', CAS_INV_2 ''d1'' ''c_b''] \<and>
   c_trace (bfs 3 (bfs_start [(bad_state, 0), (cas_init, 0)])) = [bad_state] \<and>
   c_queue (bfs 3 (bfs_start [(bad_state, 0), (cas_init, 0)])) = [(cas_init, 0)] \<and>
   bfs_halted (bfs 3 (bfs_start [(bad_state, 0), (cas_init, 0)])) \<and>
   explore 3 proto_init [''event''] False 0 =
     \<lparr>p_violations = [PROTO_INV_1 ''event''], p_explored = 1,
      p_visited = [([''event''], False)]\<rparr>"
proof -
  let ?r = "bfs 3 (bfs_start [(bad_state, 0), (cas_init, 0)])"
  have r: "?r = \<lparr>c_queue = [(cas_init, 0)],
      c_visited = {state_key bad_state},
      c_violations = [CAS_INV_1 ''d1'' ''c_a'' ''c_b'', CAS_INV_2 ''d1'' ''c_b''],
      c_explored = 1, c_trace = [bad_state]\<rparr>"
    by (simp add: bfs.simps bfs_start_def bfs_step_def bad_state_def cas_invariants_def
        cas_inv_1_def cas_inv_2_def cas_inv_4_def Let_def)
  have nc: "\<not> bfs_clean ?r"
    by (simp add: r bfs_clean_def)
  have cs: "check_state [''event''] False = Some (PROTO_INV_1 ''event'')"
    by (simp add: check_state_def)
  have pv: "p_violations (explore 3 proto_init [''event''] False 0) \<noteq> []"
    by (simp add: explore_root_violation[OF cs])
  show ?thesis
    using first_violation_halts[of 3 "[(bad_state, 0), (cas_init, 0)]" "?r" "[''event'']" False 0]
      nc cs pv
    by (simp add: r)
qed

section \<open>The claims on the Replay model\<close>

text \<open>
  C2, as amended (the bound is a trial count capped at 20). Invoked with bound \<open>b\<close>, the
  check runs \<open>min b 20\<close> trials (none when \<open>b\<close> is not positive), trial \<open>t\<close> fixing the
  function sampled by the two draws \<open>2 t\<close> and \<open>2 t + 1\<close> of the generator, a function
  from the requests to the digests; the PASS line prints \<open>b\<close>.
\<close>

theorem replay_trials_bound:
  "trials_run (check_replay rnd bound) = Some (nat (min bound 20)) \<and>
   trials_reported (check_replay rnd bound) = Some bound \<and>
   map_option r_sampled (check_replay rnd bound) =
     Some (map (\<lambda>t. sample_exec_fn rnd (2 * t)) [0..<nat (min bound 20)]) \<and>
   map fst (sample_exec_fn rnd pos) = REQUESTS \<and>
   set (map snd (sample_exec_fn rnd pos)) \<subseteq> set REPLAY_DIGESTS"
proof -
  have "choice rnd i REPLAY_DIGESTS \<in> set REPLAY_DIGESTS" for i
    by (rule choice_in) (simp add: REPLAY_DIGESTS_def)
  then show ?thesis
    by (simp add: check_replay_eq trials_run_def trials_reported_def sample_exec_fn_eq
        REQUESTS_def)
qed

text \<open>An instance of the amended C2, at bounds 7, 30 and -1.\<close>

theorem replay_trials_bound_witness:
  "trials_run (check_replay count_draws 7) = Some 7 \<and>
   trials_run (check_replay count_draws 30) = Some 20 \<and>
   trials_run (check_replay count_draws (- 1)) = Some 0 \<and>
   trials_reported (check_replay count_draws 30) = Some 30"
  using replay_trials_bound[of count_draws 7] replay_trials_bound[of count_draws 30]
    replay_trials_bound[of count_draws "- 1"]
  by simp

text \<open>
  C2 as stated fails: with bound 30 the check runs 20 trials, not 30, and prints 30.
\<close>

theorem replay_trials_counterexample:
  "trials_run (check_replay zero_draws 30) = Some 20 \<and>
   trials_reported (check_replay zero_draws 30) = Some 30"
  by (simp add: check_replay_eq trials_run_def trials_reported_def)

text \<open>
  C10 (the Replay check always passes). For every bound and every generator the check
  returns \<^verbatim>\<open>True\<close> with no violation: a trial on a sampled function appends neither
  REPLAY-INV-1 nor REPLAY-INV-3, and raises no \<^verbatim>\<open>KeyError\<close>.
\<close>

theorem replay_always_passes:
  "map_option r_passed (check_replay rnd bound) = Some True \<and>
   map_option r_violations (check_replay rnd bound) = Some [] \<and>
   replay_trial (sample_exec_fn rnd pos) = Some []"
  by (simp add: check_replay_eq sample_exec_fn_eq replay_trial_fixed)

text \<open>An instance of C10, at bound 30.\<close>

theorem replay_always_passes_witness:
  "map_option r_passed (check_replay count_draws 30) = Some True \<and>
   replay_trial [(''req_a'', ''d_x''), (''req_b'', ''d_y'')] = Some []"
  using replay_always_passes[of count_draws 30 0]
  by (simp add: sample_exec_fn_eq choice_def count_draws_def REPLAY_DIGESTS_def)

section \<open>The claim on the Determinism model\<close>




section \<open>The claims on the PolicyCompiler model\<close>



text \<open>
  C1, as amended (missing keys are given defaults). A policy file that lacks a key is not
  rejected: a missing \<^verbatim>\<open>policies\<close> or \<^verbatim>\<open>conflicts\<close> is read as the empty list and a
  missing \<^verbatim>\<open>map\<close> as the empty mapping. Without \<^verbatim>\<open>policies\<close> the check enumerates
  the empty subset and passes; without \<^verbatim>\<open>map\<close>, and with a policy listed, the
  enumeration ends in the uncaught \<^verbatim>\<open>KeyError\<close>.
\<close>

theorem missing_keys_defaulted:
  "(pf_policies data = None \<longrightarrow>
      POLICIES (load_definitions (Some data)) = [] \<and>
      check_policy_compiler (Some data) =
        Some \<lparr>pc_passed = True, pc_violations = [], pc_subsets = [[]]\<rparr>) \<and>
   (pf_conflicts data = None \<longrightarrow> CONFLICTS (load_definitions (Some data)) = []) \<and>
   (pf_map data = None \<longrightarrow> COMPILER_MAP (load_definitions (Some data)) = []) \<and>
   (pf_map data = None \<and> pf_policies data = Some (p # ps) \<longrightarrow>
      check_policy_compiler (Some data) = None)"
proof -
  have a: "check_policy_compiler (Some data) =
        Some \<lparr>pc_passed = True, pc_violations = [], pc_subsets = [[]]\<rparr>"
    if "pf_policies data = None"
    using that
    by (simp add: check_policy_compiler_def load_definitions_def dict_get_def all_subsets_def
        check_subset_def has_conflict_def policy_inv_1_def policy_inv_2_def Let_def)
  have b: "check_policy_compiler (Some data) = None"
    if m: "pf_map data = None" and q: "pf_policies data = Some (p # ps)"
  proof -
    let ?defs = "load_definitions (Some data)"
    have "check_subset ?defs [p] = None"
      using m by (simp add: check_subset_def load_definitions_def dict_get_def)
    moreover have "[p] \<in> set (all_subsets (POLICIES ?defs))"
      using q singleton_in_all_subsets[of p ps] by (simp add: load_definitions_def dict_get_def)
    ultimately have "check_subsets ?defs (all_subsets (POLICIES ?defs)) = None"
      by (rule check_subsets_raises[rotated])
    then show ?thesis
      by (simp add: check_policy_compiler_def Let_def)
  qed
  show ?thesis
    using a b by (simp add: load_definitions_def dict_get_def)
qed

text \<open>An instance of the amended C1, on the two files with missing keys.\<close>

theorem missing_keys_defaulted_witness:
  "pf_policies empty_object = None \<and>
   check_policy_compiler (Some empty_object) =
     Some \<lparr>pc_passed = True, pc_violations = [], pc_subsets = [[]]\<rparr> \<and>
   pf_map no_map_object = None \<and> pf_policies no_map_object = Some [''p1''] \<and>
   check_policy_compiler (Some no_map_object) = None"
  using missing_keys_defaulted[of empty_object] missing_keys_defaulted[of no_map_object "''p1''" "[]"]
  by (simp add: empty_object_def no_map_object_def)

text \<open>
  C1 as stated fails: the empty object is loaded as three empty defaults, and the check
  passes on it.
\<close>

theorem malformed_file_counterexample:
  "load_definitions (Some empty_object) = \<lparr>POLICIES = [], COMPILER_MAP = [], CONFLICTS = []\<rparr> \<and>
   check_policy_compiler (Some empty_object) =
     Some \<lparr>pc_passed = True, pc_violations = [], pc_subsets = [[]]\<rparr>"
  by code_simp

end
